theory Spec2Isabelle
  imports Main
begin

section \<open>Markup elements and decoded values\<close>

text \<open>
  An element of the parsed markup tree, as the property-list reader sees it: the tag, the text
  content (absent, or a string that may be empty) and the child elements in document order.
\<close>

datatype element = Element (tag: string) (etext: "string option") (children: "element list")

text \<open>
  The values \<open>parse_plist_value\<close> returns. A dictionary is kept as an association list in
  insertion order; its keys are the text of \<open>key\<close> elements, which may be absent.
\<close>

datatype pyval =
    PyNone
  | PyStr string
  | PyInt int
  | PyBool bool
  | PyDict "(string option \<times> pyval) list"
  | PyList "pyval list"

type_synonym pydict = "(string option \<times> pyval) list"

text \<open>The only exception the routine can raise: the integer conversion rejecting its argument.\<close>

datatype error = ValueError string

section \<open>The integer conversion\<close>

text \<open>
  The built-in conversion \<^verbatim>\<open>int(s)\<close> of a string to a whole number in base ten, on ASCII
  text: white space (the characters 9 to 13 and 32) is stripped at both ends; one sign may
  precede the digits; at least one digit is required; a single underscore may stand between
  two digits. \<open>None\<close> stands for the \<open>ValueError\<close> the conversion raises. The model is for
  ASCII text only: digits and white space outside ASCII, and the interpreter's bound on the
  number of digits, are not part of it, and the theorems about \<open>integer\<close> elements assume
  ASCII text.
\<close>

definition is_space :: "char \<Rightarrow> bool" where
  "is_space c = (let n = of_char c :: nat in (9 \<le> n \<and> n \<le> 13) \<or> n = 32)"

definition is_digit :: "char \<Rightarrow> bool" where
  "is_digit c = (let n = of_char c :: nat in 48 \<le> n \<and> n \<le> 57)"

definition digit_val :: "char \<Rightarrow> int" where
  "digit_val c = int (of_char c) - 48"

definition strip :: "string \<Rightarrow> string" where
  "strip s = rev (dropWhile is_space (rev (dropWhile is_space s)))"

fun parse_digits :: "string \<Rightarrow> int \<Rightarrow> int option" where
  "parse_digits [] acc = Some acc"
| "parse_digits (c # cs) acc =
     (if is_digit c then parse_digits cs (acc * 10 + digit_val c)
      else if c = CHR ''_'' then
        (case cs of [] \<Rightarrow> None
         | d # _ \<Rightarrow> if is_digit d then parse_digits cs acc else None)
      else None)"

definition parse_unsigned :: "string \<Rightarrow> int option" where
  "parse_unsigned s =
     (case s of [] \<Rightarrow> None
      | c # _ \<Rightarrow> if is_digit c then parse_digits s 0 else None)"

definition py_int :: "string \<Rightarrow> int option" where
  "py_int s =
     (case strip s of
        [] \<Rightarrow> None
      | c # cs \<Rightarrow>
          if c = CHR ''-'' then map_option uminus (parse_unsigned cs)
          else if c = CHR ''+'' then parse_unsigned cs
          else parse_unsigned (c # cs))"

section \<open>Dictionaries and list comprehensions\<close>

text \<open>
  Assignment \<open>result[key] = value\<close>: a key already present keeps its place and takes the new
  value; a new key is added at the end.
\<close>

fun dict_set :: "('k \<times> 'v) list \<Rightarrow> 'k \<Rightarrow> 'v \<Rightarrow> ('k \<times> 'v) list" where
  "dict_set [] k v = [(k, v)]"
| "dict_set ((k', v') # kvs) k v =
     (if k' = k then (k', v) # kvs else (k', v') # dict_set kvs k v)"

text \<open>
  Collecting the results of a comprehension from left to right: the first exception ends it.
\<close>

fun collect :: "(error + 'a) list \<Rightarrow> error + 'a list" where
  "collect [] = Inr []"
| "collect (Inl e # rs) = Inl e"
| "collect (Inr v # rs) = (case collect rs of Inl e \<Rightarrow> Inl e | Inr vs \<Rightarrow> Inr (v # vs))"

section \<open>The decoder\<close>

text \<open>
  The routine of \<^verbatim>\<open>parse_music_library.py\<close>:
  \<^verbatim>\<open>
  def parse_plist_value(element):
      tag = element.tag
      if tag == 'string':
          return element.text or ''
      elif tag == 'integer':
          return int(element.text) if element.text else 0
      elif tag == 'true':
          return True
      elif tag == 'false':
          return False
      elif tag == 'date':
          return element.text or ''
      elif tag == 'dict':
          result = {}
          i = 0
          children = list(element)
          while i < len(children):
              key_elem = children[i]
              if key_elem.tag == 'key' and i + 1 < len(children):
                  key = key_elem.text
                  value_elem = children[i + 1]
                  result[key] = parse_plist_value(value_elem)
                  i += 2
              else:
                  i += 1
          return result
      elif tag == 'array':
          return [parse_plist_value(child) for child in element]
      return None
  \<close>
  The result is a value or the exception raised (\<open>Inl\<close>). The \<open>while\<close> loop is
  \<open>dict_loop\<close>, on the children, the index \<open>i\<close> and the dictionary built so far; an
  exception from the recursive call leaves the loop, and the routine, at once. Both functions
  terminate: a recursive call is on a child, and the loop moves its index towards the end.
\<close>

function parse_plist_value :: "element \<Rightarrow> error + pyval"
  and dict_loop :: "element list \<Rightarrow> nat \<Rightarrow> pydict \<Rightarrow> error + pydict"
where
  "parse_plist_value (Element t x cs) =
     (if t = ''string'' then Inr (PyStr (case x of None \<Rightarrow> '''' | Some s \<Rightarrow> if s = '''' then '''' else s))
      else if t = ''integer'' then
        (case x of None \<Rightarrow> Inr (PyInt 0)
         | Some s \<Rightarrow>
             if s = '''' then Inr (PyInt 0)
             else (case py_int s of None \<Rightarrow> Inl (ValueError s) | Some n \<Rightarrow> Inr (PyInt n)))
      else if t = ''true'' then Inr (PyBool True)
      else if t = ''false'' then Inr (PyBool False)
      else if t = ''date'' then Inr (PyStr (case x of None \<Rightarrow> '''' | Some s \<Rightarrow> if s = '''' then '''' else s))
      else if t = ''dict'' then
        (case dict_loop cs 0 [] of Inl e \<Rightarrow> Inl e | Inr result \<Rightarrow> Inr (PyDict result))
      else if t = ''array'' then
        (case collect (map parse_plist_value cs) of Inl e \<Rightarrow> Inl e | Inr vs \<Rightarrow> Inr (PyList vs))
      else Inr PyNone)"
| "dict_loop cs i result =
     (if i < length cs then
        (if tag (cs ! i) = ''key'' \<and> i + 1 < length cs then
           (case parse_plist_value (cs ! (i + 1)) of
              Inl e \<Rightarrow> Inl e
            | Inr v \<Rightarrow> dict_loop cs (i + 2) (dict_set result (etext (cs ! i)) v))
         else dict_loop cs (i + 1) result)
      else Inr result)"
  by pat_completeness auto
termination
proof -
  have mem: "c \<in> set cs \<Longrightarrow> size c < size_list size cs" for c :: element and cs
    by (induction cs) auto
  then have nth: "i < length cs \<Longrightarrow> size (cs ! i) < size_list size cs" for i and cs :: "element list"
    by simp
  show ?thesis
    by (relation "measures
          [\<lambda>a. case a of Inl e \<Rightarrow> size e | Inr (cs, i, r) \<Rightarrow> size_list size cs,
           \<lambda>a. case a of Inl e \<Rightarrow> 0 | Inr (cs, i, r) \<Rightarrow> Suc (length cs - i)]")
       (auto simp: mem nth less_Suc_eq)
qed

declare dict_loop.simps [simp del]

section \<open>The record walk as the design describes it\<close>

text \<open>
  The pairing algorithm in the words of its description: a cursor over the children and the
  record built so far. One step looks at the child under the cursor: a \<open>key\<close> child with a
  next sibling gives an entry (the key's text, the decoded sibling) and moves the cursor by
  two; any other child moves it by one. The walk repeats the step while the cursor is inside
  the children; its first argument bounds the number of steps.
\<close>

record spec_walk_state =
  cursor :: nat
  entries :: pydict

definition spec_walk_step :: "element list \<Rightarrow> spec_walk_state \<Rightarrow> error + spec_walk_state" where
  "spec_walk_step cs s =
     (if tag (cs ! cursor s) = ''key'' \<and> cursor s + 1 < length cs then
        (case parse_plist_value (cs ! (cursor s + 1)) of
           Inl e \<Rightarrow> Inl e
         | Inr v \<Rightarrow>
             Inr \<lparr>cursor = cursor s + 2,
                  entries = dict_set (entries s) (etext (cs ! cursor s)) v\<rparr>)
      else Inr (s\<lparr>cursor := cursor s + 1\<rparr>))"

fun spec_walk :: "nat \<Rightarrow> element list \<Rightarrow> spec_walk_state \<Rightarrow> error + spec_walk_state" where
  "spec_walk 0 cs s = Inr s"
| "spec_walk (Suc n) cs s =
     (if cursor s < length cs then
        (case spec_walk_step cs s of Inl e \<Rightarrow> Inl e | Inr s' \<Rightarrow> spec_walk n cs s')
      else Inr s)"

section \<open>Well-formed key/value children\<close>

text \<open>
  The children of a dictionary element that consists of key/value sibling pairs only:
  \<open>pairs\<close> lays the pairs out as siblings, \<open>keys_tagged\<close> says that the first element of
  every pair carries the tag \<open>key\<close>.
\<close>

definition pairs :: "(element \<times> element) list \<Rightarrow> element list" where
  "pairs ps = concat (map (\<lambda>(k, v). [k, v]) ps)"

definition keys_tagged :: "(element \<times> element) list \<Rightarrow> bool" where
  "keys_tagged ps = list_all (\<lambda>(k, v). tag k = ''key'') ps"

text \<open>The keys of a sequence in the order of their first occurrence.\<close>

fun first_seen :: "'a list \<Rightarrow> 'a list" where
  "first_seen [] = []"
| "first_seen (x # xs) = x # filter (\<lambda>y. y \<noteq> x) (first_seen xs)"

text \<open>A run of assignments to a dictionary, from left to right.\<close>

fun set_all :: "('k \<times> 'v) list \<Rightarrow> ('k \<times> 'v) list \<Rightarrow> ('k \<times> 'v) list" where
  "set_all d [] = d"
| "set_all d ((k, v) # kvs) = set_all (dict_set d k v) kvs"

text \<open>
  The loop of the \<open>dict\<close> branch read on the children that remain from the cursor on; the
  loop itself, on the index, is \<open>dict_loop\<close>.
\<close>

fun pair_walk :: "element list \<Rightarrow> pydict \<Rightarrow> error + pydict" where
  "pair_walk (k # v # rest) r =
     (if tag k = ''key'' then
        (case parse_plist_value v of
           Inl e \<Rightarrow> Inl e
         | Inr y \<Rightarrow> pair_walk rest (dict_set r (etext k) y))
      else pair_walk (v # rest) r)"
| "pair_walk [k] r = Inr r"
| "pair_walk [] r = Inr r"

section \<open>Integer literals\<close>

text \<open>
  The texts the conversion accepts, as the language reference describes them: an integer
  literal in base ten, which may be preceded by \<open>+\<close> or \<open>-\<close> with no space in between, may
  have leading zeros, may be surrounded by white space, and may have single underscores between
  digits. White space is the six characters tab, line feed, vertical tab, form feed, carriage
  return and space; the digits are \<open>0\<close> to \<open>9\<close>. The value of a literal is the decimal value
  of its digits, negated after a minus sign. This is said for ASCII text, the text the
  conversion is modelled on.
\<close>

definition spec_space :: "char \<Rightarrow> bool" where
  "spec_space c = (c \<in> set [CHR 0x09, CHR 0x0A, CHR 0x0B, CHR 0x0C, CHR 0x0D, CHR '' ''])"

definition spec_digit :: "char \<Rightarrow> int option" where
  "spec_digit =
     map_of [(CHR ''0'', 0), (CHR ''1'', 1), (CHR ''2'', 2), (CHR ''3'', 3), (CHR ''4'', 4),
             (CHR ''5'', 5), (CHR ''6'', 6), (CHR ''7'', 7), (CHR ''8'', 8), (CHR ''9'', 9)]"

definition spec_trim :: "string \<Rightarrow> string" where
  "spec_trim s = rev (dropWhile spec_space (rev (dropWhile spec_space s)))"

definition spec_unsigned :: "string \<Rightarrow> string" where
  "spec_unsigned t =
     (case t of [] \<Rightarrow> [] | c # r \<Rightarrow> if c = CHR ''+'' \<or> c = CHR ''-'' then r else t)"

definition spec_body :: "string \<Rightarrow> bool" where
  "spec_body b =
     (b \<noteq> [] \<and> spec_digit (hd b) \<noteq> None \<and> spec_digit (last b) \<noteq> None
      \<and> list_all (\<lambda>c. spec_digit c \<noteq> None \<or> c = CHR ''_'') b
      \<and> successively (\<lambda>a c. \<not> (a = CHR ''_'' \<and> c = CHR ''_'')) b)"

definition int_literal :: "string \<Rightarrow> bool" where
  "int_literal s = spec_body (spec_unsigned (spec_trim s))"

definition digits_value :: "string \<Rightarrow> int" where
  "digits_value t = foldl (\<lambda>a c. case spec_digit c of None \<Rightarrow> a | Some d \<Rightarrow> 10 * a + d) 0 t"

definition literal_value :: "string \<Rightarrow> int" where
  "literal_value s =
     (let t = spec_trim s
      in if t \<noteq> [] \<and> hd t = CHR ''-'' then - digits_value t else digits_value t)"

text \<open>Text of ASCII characters only, and an element whose text, if any, is such.\<close>

definition is_ascii :: "string \<Rightarrow> bool" where
  "is_ascii s = list_all (\<lambda>c. of_char c < (128::nat)) s"

definition ascii_text :: "element \<Rightarrow> bool" where
  "ascii_text n = (case etext n of None \<Rightarrow> True | Some s \<Rightarrow> is_ascii s)"

section \<open>The elements a call decodes\<close>

text \<open>
  An \<open>integer\<close> element whose text is not empty and is no integer literal; every element of a
  tree; the value children the dictionary loop decodes; and the elements on which a call of
  the decoder is made, the element itself first.
\<close>

definition malformed :: "element \<Rightarrow> bool" where
  "malformed n =
     (tag n = ''integer'' \<and>
      (case etext n of None \<Rightarrow> False | Some s \<Rightarrow> s \<noteq> '''' \<and> \<not> int_literal s))"

fun all_nodes :: "element \<Rightarrow> element list" where
  "all_nodes (Element t x cs) = Element t x cs # concat (map all_nodes cs)"

fun dict_values :: "element list \<Rightarrow> element list" where
  "dict_values (k # v # rest) =
     (if tag k = ''key'' then v # dict_values rest else dict_values (v # rest))"
| "dict_values [k] = []"
| "dict_values [] = []"

function decode_calls :: "element \<Rightarrow> element list" where
  "decode_calls (Element t x cs) =
     Element t x cs #
     (if t = ''dict'' then concat (map decode_calls (dict_values cs))
      else if t = ''array'' then concat (map decode_calls cs)
      else [])"
  by pat_completeness auto
termination
proof -
  have sub: "set (dict_values cs) \<subseteq> set cs" for cs
    by (induction cs rule: dict_values.induct) auto
  have mem: "c \<in> set cs \<Longrightarrow> size c < Suc (size_list size cs)" for c :: element and cs
    by (induction cs) auto
  show ?thesis
    by (relation "measure size") (use sub mem in auto)
qed

section \<open>The positions of the cursor\<close>

text \<open>
  The values the index \<open>i\<close> of the \<open>while\<close> loop takes at the head of the loop, from a
  starting index on, when no exception ends the loop: the children the cursor stops at. A
  child the loop takes as the value of the \<open>key\<close> child before it is not among them.
\<close>

function loop_stops :: "element list \<Rightarrow> nat \<Rightarrow> nat list" where
  "loop_stops cs i =
     (if i < length cs then
        i # (if tag (cs ! i) = ''key'' \<and> i + 1 < length cs then loop_stops cs (i + 2)
             else loop_stops cs (i + 1))
      else [])"
  by pat_completeness auto
termination
  by (relation "measure (\<lambda>(cs, i). length cs - i)") auto

declare loop_stops.simps [simp del]

section \<open>An encoder\<close>

text \<open>
  Modelled from the spec: the decimal notation in which the encoder, which the repository does
  not contain, writes a whole number: a minus sign for a negative number, then the digits
  without leading zeros.
\<close>

definition digit_char :: "nat \<Rightarrow> char" where
  "digit_char d = char_of (48 + d)"

fun show_nat :: "nat \<Rightarrow> string" where
  "show_nat n = (if n < 10 then [digit_char n] else show_nat (n div 10) @ [digit_char (n mod 10)])"

declare show_nat.simps [simp del]

definition show_int :: "int \<Rightarrow> string" where
  "show_int n = (if n < 0 then CHR ''-'' # show_nat (nat (- n)) else show_nat (nat n))"

text \<open>
  Modelled from the spec: the inverse encoder from decoded values back to markup, which the
  repository does not contain. Each value is written as the element the decoder reads it from:
  text as a \<open>string\<close> element, a number as an \<open>integer\<close> element with its decimal notation,
  a boolean as \<open>true\<close> or \<open>false\<close>, a record as a \<open>dict\<close> element of key/value sibling
  pairs in entry order, a list as an \<open>array\<close> element, and the null value as an element with
  a tag the decoder does not know.
\<close>

fun encode :: "pyval \<Rightarrow> element" where
  "encode PyNone = Element ''null'' None []"
| "encode (PyStr s) = Element ''string'' (Some s) []"
| "encode (PyInt n) = Element ''integer'' (Some (show_int n)) []"
| "encode (PyBool b) = Element (if b then ''true'' else ''false'') None []"
| "encode (PyDict d) =
     Element ''dict'' None (concat (map (\<lambda>(k, v). [Element ''key'' k [], encode v]) d))"
| "encode (PyList vs) = Element ''array'' None (map encode vs)"

text \<open>A value whose dictionaries, at every depth, hold each key once.\<close>

fun wf_value :: "pyval \<Rightarrow> bool" where
  "wf_value (PyDict d) = (distinct (map fst d) \<and> (\<forall>(k, v)\<in>set d. wf_value v))"
| "wf_value (PyList vs) = (\<forall>v\<in>set vs. wf_value v)"
| "wf_value v = True"

section \<open>Auxiliary facts\<close>

subsection \<open>The dictionary loop\<close>

text \<open>The loop on the index agrees with the walk on the remaining children.\<close>

lemma dict_loop_past_end: "length cs \<le> i \<Longrightarrow> dict_loop cs i r = Inr r"
  by (simp add: dict_loop.simps)

lemma dict_loop_drop: "dict_loop cs i r = pair_walk (drop i cs) r"
proof (induction "length cs - i" arbitrary: i r rule: less_induct)
  case less
  show ?case
  proof (cases "i < length cs")
    case False
    then show ?thesis by (simp add: dict_loop.simps)
  next
    case True
    note i = True
    show ?thesis
    proof (cases "Suc i < length cs")
      case False
      with i have "drop i cs = [cs ! i]"
        by (metis Cons_nth_drop_Suc drop_all not_less)
      moreover from i False have "dict_loop cs (i + 1) r = Inr r"
        by (simp add: dict_loop_past_end)
      ultimately show ?thesis using i False
        by (simp add: dict_loop.simps [of cs i])
    next
      case True
      then have d: "drop i cs = cs ! i # cs ! Suc i # drop (Suc (Suc i)) cs"
        using i by (simp add: Cons_nth_drop_Suc)
      have a: "dict_loop cs (Suc i) r = pair_walk (drop (Suc i) cs) r"
        using i by (intro less) simp
      have b: "dict_loop cs (Suc (Suc i)) r' = pair_walk (drop (Suc (Suc i)) cs) r'" for r'
        using True by (intro less) simp
      have e: "drop (Suc i) cs = cs ! Suc i # drop (Suc (Suc i)) cs"
        using True by (simp add: Cons_nth_drop_Suc)
      show ?thesis
        using i True a b e by (simp add: dict_loop.simps [of cs i] d split: sum.split)
    qed
  qed
qed

subsection \<open>Dictionary assignment\<close>

text \<open>Assignment overwrites in place and appends new keys.\<close>

lemma map_of_dict_set: "map_of (dict_set d k v) = (map_of d)(k \<mapsto> v)"
  by (induction d) (auto simp: fun_eq_iff)

lemma keys_dict_set:
  "map fst (dict_set d k v) = (if k \<in> fst ` set d then map fst d else map fst d @ [k])"
  by (induction d) (fastforce split: if_splits)+

lemma set_keys_dict_set: "fst ` set (dict_set d k v) = insert k (fst ` set d)"
proof -
  have "set (map fst (dict_set d k v)) = insert k (set (map fst d))"
  proof (cases "k \<in> fst ` set d")
    case True
    then show ?thesis by (simp only: keys_dict_set if_True) auto
  next
    case False
    then show ?thesis by (simp only: keys_dict_set if_False) auto
  qed
  then show ?thesis by simp
qed

subsection \<open>Walking key/value pairs\<close>

text \<open>Over well-formed pairs the walk decodes every value in turn and assigns it to its key.\<close>

lemma pair_walk_pairs:
  "keys_tagged ps \<Longrightarrow>
   pair_walk (pairs ps @ rest) r =
     (case collect (map (\<lambda>(k, v). parse_plist_value v) ps) of
        Inl e \<Rightarrow> Inl e
      | Inr vs \<Rightarrow> pair_walk rest (set_all r (zip (map (\<lambda>(k, v). etext k) ps) vs)))"
proof (induction ps arbitrary: r)
  case Nil
  then show ?case by (simp add: pairs_def)
next
  case (Cons p ps)
  obtain k v where p: "p = (k, v)" by (cases p)
  from Cons.prems have kt: "tag k = ''key''" and rest: "keys_tagged ps"
    by (simp_all add: keys_tagged_def p)
  have unfold: "pairs ((k, v) # ps) @ rest = k # v # (pairs ps @ rest)"
    by (simp add: pairs_def)
  show ?case
  proof (cases "parse_plist_value v")
    case (Inl e)
    then show ?thesis by (simp add: unfold kt p)
  next
    case (Inr y)
    then show ?thesis
      using Cons.IH [OF rest, of "dict_set r (etext k) y"]
      by (simp add: unfold kt p split: sum.split)
  qed
qed

lemma pair_walk_keeps_keys:
  "pair_walk cs r = Inr r' \<Longrightarrow> fst ` set r \<subseteq> fst ` set r'"
proof (induction cs r rule: pair_walk.induct)
  case (1 k v rest r)
  show ?case
  proof (cases "tag k = ''key''")
    case True
    with "1.prems" obtain y where y: "parse_plist_value v = Inr y"
      and w: "pair_walk rest (dict_set r (etext k) y) = Inr r'"
      by (auto split: sum.splits)
    from "1.IH"(1) [OF True y w] show ?thesis
      by (auto simp: set_keys_dict_set)
  next
    case False
    with 1 show ?thesis by simp
  qed
qed simp_all

lemma parse_dict_pairs:
  "keys_tagged ps \<Longrightarrow>
   parse_plist_value (Element ''dict'' x (pairs ps @ rest)) =
     (case collect (map (\<lambda>(k, v). parse_plist_value v) ps) of
        Inl e \<Rightarrow> Inl e
      | Inr vs \<Rightarrow>
          (case pair_walk rest (set_all [] (zip (map (\<lambda>(k, v). etext k) ps) vs)) of
             Inl e \<Rightarrow> Inl e
           | Inr r \<Rightarrow> Inr (PyDict r)))"
  by (simp add: dict_loop_drop pair_walk_pairs split: sum.split)

lemma keys_set_all:
  "map fst (set_all d kvs) =
     map fst d @ filter (\<lambda>k. k \<notin> fst ` set d) (first_seen (map fst kvs))"
proof (induction kvs arbitrary: d)
  case Nil
  then show ?case by simp
next
  case (Cons p kvs)
  obtain k v where p: "p = (k, v)" by (cases p)
  have f: "filter (\<lambda>y. y \<notin> insert k (fst ` set d)) xs =
           filter (\<lambda>y. y \<notin> fst ` set d) (filter (\<lambda>y. y \<noteq> k) xs)" for xs
    by (induction xs) auto
  show ?case
  proof (cases "k \<in> fst ` set d")
    case True
    then have "insert k (fst ` set d) = fst ` set d" by auto
    with True show ?thesis
      using f [of "first_seen (map fst kvs)"]
      by (simp add: p Cons.IH keys_dict_set set_keys_dict_set)
  next
    case False
    then show ?thesis
      using f [of "first_seen (map fst kvs)"]
      by (simp add: p Cons.IH keys_dict_set set_keys_dict_set)
  qed
qed

lemma map_of_set_all: "map_of (set_all d kvs) = map_of d ++ map_of (rev kvs)"
proof (induction kvs arbitrary: d)
  case Nil
  then show ?case by simp
next
  case (Cons p kvs)
  obtain k v where p: "p = (k, v)" by (cases p)
  show ?case
    by (simp add: p Cons.IH map_of_dict_set map_of_append fun_eq_iff map_add_def split: option.split)
qed

lemma distinct_first_seen: "distinct (first_seen xs)"
  by (induction xs) auto

lemma set_first_seen: "set (first_seen xs) = set xs"
  by (induction xs) auto

lemma set_all_distinct:
  "distinct (map fst d @ map fst kvs) \<Longrightarrow> set_all d kvs = d @ kvs"
proof (induction kvs arbitrary: d)
  case Nil
  then show ?case by simp
next
  case (Cons p kvs)
  obtain k v where p: "p = (k, v)" by (cases p)
  from Cons.prems have nk: "k \<notin> fst ` set d" by (auto simp: p)
  have ds: "dict_set d k v = d @ [(k, v)]" using nk by (induction d) auto
  from Cons.prems have "distinct (map fst (d @ [(k, v)]) @ map fst kvs)"
    by (auto simp: p)
  from Cons.IH [OF this] show ?case by (simp add: p ds)
qed

lemma set_all_self: "distinct (map fst d) \<Longrightarrow> set_all [] d = d"
  using set_all_distinct [of "[]" d] by simp

subsection \<open>The cursor walk\<close>

text \<open>With as many steps as the cursor is away from the end, the described walk ends where the loop does.\<close>

lemma spec_walk_dict_loop:
  "cursor s \<le> length cs \<Longrightarrow> length cs - cursor s \<le> n \<Longrightarrow>
   spec_walk n cs s =
     (case dict_loop cs (cursor s) (entries s) of
        Inl e \<Rightarrow> Inl e
      | Inr r \<Rightarrow> Inr \<lparr>cursor = length cs, entries = r\<rparr>)"
proof (induction n arbitrary: s)
  case 0
  then show ?case by (simp add: dict_loop_past_end)
next
  case (Suc n)
  show ?case
  proof (cases "cursor s < length cs")
    case False
    with Suc.prems show ?thesis by (simp add: dict_loop_past_end)
  next
    case True
    note lt = True
    show ?thesis
    proof (cases "tag (cs ! cursor s) = ''key'' \<and> cursor s + 1 < length cs")
      case False
      let ?s' = "s\<lparr>cursor := cursor s + 1\<rparr>"
      have "spec_walk n cs ?s' =
        (case dict_loop cs (cursor ?s') (entries ?s') of
           Inl e \<Rightarrow> Inl e | Inr r \<Rightarrow> Inr \<lparr>cursor = length cs, entries = r\<rparr>)"
        using lt Suc.prems by (intro Suc.IH) simp_all
      with False lt show ?thesis
        by (auto simp: spec_walk_step_def dict_loop.simps [of cs "cursor s"])
    next
      case True
      show ?thesis
      proof (cases "parse_plist_value (cs ! (cursor s + 1))")
        case (Inl e)
        with True lt show ?thesis
          by (simp add: spec_walk_step_def dict_loop.simps [of cs "cursor s"])
      next
        case (Inr v)
        let ?s' = "\<lparr>cursor = cursor s + 2,
                     entries = dict_set (entries s) (etext (cs ! cursor s)) v\<rparr>"
        have "spec_walk n cs ?s' =
          (case dict_loop cs (cursor ?s') (entries ?s') of
             Inl e \<Rightarrow> Inl e | Inr r \<Rightarrow> Inr \<lparr>cursor = length cs, entries = r\<rparr>)"
          using True Suc.prems by (intro Suc.IH) simp_all
        with True lt Inr show ?thesis
          by (simp add: spec_walk_step_def dict_loop.simps [of cs "cursor s"])
      qed
    qed
  qed
qed

subsection \<open>Comprehensions\<close>

text \<open>A comprehension returns a list exactly when every element was computed.\<close>

lemma collect_map_Inr: "collect (map Inr vs) = Inr vs"
  by (induction vs) auto

lemma collect_InrD: "collect rs = Inr vs \<Longrightarrow> rs = map Inr vs"
proof (induction rs arbitrary: vs)
  case Nil
  then show ?case by simp
next
  case (Cons r rs)
  then show ?case by (cases r) (auto split: sum.splits)
qed

lemma collect_Inr_iff: "collect rs = Inr vs \<longleftrightarrow> rs = map Inr vs"
  using collect_InrD collect_map_Inr by blast

lemma collect_ok_iff: "(\<exists>vs. collect rs = Inr vs) \<longleftrightarrow> (\<forall>r\<in>set rs. \<exists>v. r = Inr v)"
proof (induction rs)
  case Nil
  then show ?case by simp
next
  case (Cons r rs)
  then show ?case by (cases r) (auto split: sum.splits)
qed

subsection \<open>The conversion accepts the integer literals\<close>

text \<open>The conversion returns the value of an integer literal and rejects every other text.\<close>

lemma char_eq_code: "(c = d) \<longleftrightarrow> (of_char c :: nat) = of_char d"
  by auto

lemma is_space_spec: "is_space c = spec_space c"
proof -
  have "spec_space c \<longleftrightarrow> of_char c = (9::nat) \<or> of_char c = (10::nat) \<or> of_char c = (11::nat)
      \<or> of_char c = (12::nat) \<or> of_char c = (13::nat) \<or> of_char c = (32::nat)"
    by (simp add: spec_space_def char_eq_code [of c])
  also have "\<dots> \<longleftrightarrow> is_space c"
    unfolding is_space_def Let_def by arith
  finally show ?thesis by simp
qed

lemma spec_digit_eq: "spec_digit c = (if is_digit c then Some (digit_val c) else None)"
proof -
  have "spec_digit c =
     (if of_char c = (48::nat) then Some 0 else if of_char c = (49::nat) then Some 1
      else if of_char c = (50::nat) then Some 2 else if of_char c = (51::nat) then Some 3
      else if of_char c = (52::nat) then Some 4 else if of_char c = (53::nat) then Some 5
      else if of_char c = (54::nat) then Some 6 else if of_char c = (55::nat) then Some 7
      else if of_char c = (56::nat) then Some 8 else if of_char c = (57::nat) then Some 9
      else None)"
    by (simp add: spec_digit_def char_eq_code [of c])
  also have "\<dots> = (if is_digit c then Some (digit_val c) else None)"
    unfolding is_digit_def digit_val_def Let_def by (auto split: if_splits) arith
  finally show ?thesis .
qed

lemma spec_digit_underscore: "spec_digit CHR ''_'' = None"
  by (simp add: spec_digit_def)

lemma spec_digit_sign: "spec_digit CHR ''-'' = None" "spec_digit CHR ''+'' = None"
  by (simp_all add: spec_digit_def)

lemma parse_digits_spec:
  "parse_digits cs acc =
     (if list_all (\<lambda>c. spec_digit c \<noteq> None \<or> c = CHR ''_'') cs
         \<and> successively (\<lambda>a c. \<not> (a = CHR ''_'' \<and> c = CHR ''_'')) cs
         \<and> (cs \<noteq> [] \<longrightarrow> spec_digit (last cs) \<noteq> None)
      then Some (foldl (\<lambda>a c. case spec_digit c of None \<Rightarrow> a | Some d \<Rightarrow> 10 * a + d) acc cs)
      else None)"
  (is "parse_digits cs acc = (if ?ok cs then Some (foldl ?g acc cs) else None)")
proof (induction cs arbitrary: acc)
  case Nil
  then show ?case by simp
next
  case (Cons c cs)
  note IH = Cons.IH
  show ?case
  proof (cases "is_digit c")
    case True
    then have d: "spec_digit c = Some (digit_val c)" and u: "c \<noteq> CHR ''_''"
      using spec_digit_underscore by (auto simp: spec_digit_eq)
    have step: "parse_digits (c # cs) acc = parse_digits cs (acc * 10 + digit_val c)"
      using True by simp
    have ok: "?ok (c # cs) \<longleftrightarrow> ?ok cs"
      using d u by (cases cs) (simp_all add: successively_Cons)
    have fold: "foldl ?g acc (c # cs) = foldl ?g (acc * 10 + digit_val c) cs"
      by (simp add: d mult.commute)
    show ?thesis unfolding step IH ok fold ..
  next
    case False
    then have n: "spec_digit c = None" by (simp add: spec_digit_eq)
    show ?thesis
    proof (cases "c = CHR ''_''")
      case u: True
      show ?thesis
      proof (cases cs)
        case Nil
        then show ?thesis using u \<open>\<not> is_digit c\<close> by (simp add: spec_digit_underscore)
      next
        case (Cons d r)
        show ?thesis
        proof (cases "is_digit d")
          case True
          then have dd: "spec_digit d \<noteq> None" and du: "d \<noteq> CHR ''_''"
            using spec_digit_underscore by (auto simp: spec_digit_eq)
          have step: "parse_digits (c # cs) acc = parse_digits cs acc"
            using u True Cons \<open>\<not> is_digit c\<close> by simp
          have ok: "?ok (c # cs) \<longleftrightarrow> ?ok cs"
            using u du by (simp add: Cons)
          have fold: "foldl ?g acc (c # cs) = foldl ?g acc cs"
            by (simp add: n)
          show ?thesis unfolding step IH ok fold ..
        next
          case False
          then have dn: "spec_digit d = None" by (simp add: spec_digit_eq)
          have step: "parse_digits (c # cs) acc = None"
            using u False Cons \<open>\<not> is_digit c\<close> by simp
          have "\<not> ?ok (c # cs)"
            using u dn by (auto simp: Cons)
          with step show ?thesis by simp
        qed
      qed
    next
      case False
      with n \<open>\<not> is_digit c\<close> show ?thesis by simp
    qed
  qed
qed

lemma parse_unsigned_spec:
  "parse_unsigned b = (if spec_body b then Some (digits_value b) else None)"
proof (cases b)
  case Nil
  then show ?thesis by (simp add: parse_unsigned_def spec_body_def)
next
  case (Cons c cs)
  have "is_digit c \<longleftrightarrow> spec_digit c \<noteq> None" by (simp add: spec_digit_eq)
  then show ?thesis
    unfolding parse_unsigned_def spec_body_def digits_value_def parse_digits_spec Cons
    by auto
qed

lemma strip_spec: "strip s = spec_trim s"
proof -
  have "is_space = spec_space" by (rule ext) (rule is_space_spec)
  then show ?thesis by (simp add: strip_def spec_trim_def)
qed

lemma digits_value_sign:
  "digits_value (CHR ''-'' # cs) = digits_value cs" "digits_value (CHR ''+'' # cs) = digits_value cs"
  by (simp_all add: digits_value_def spec_digit_sign)

lemma py_int_spec: "py_int s = (if int_literal s then Some (literal_value s) else None)"
proof (cases "spec_trim s")
  case Nil
  then show ?thesis
    by (simp add: py_int_def strip_spec int_literal_def spec_unsigned_def spec_body_def)
next
  case (Cons c cs)
  then show ?thesis
    by (simp add: py_int_def strip_spec int_literal_def literal_value_def spec_unsigned_def
        parse_unsigned_spec digits_value_sign)
qed

subsection \<open>Success and failure\<close>

text \<open>A call succeeds exactly when no element it decodes is a malformed integer.\<close>

lemma dict_values_subset: "set (dict_values cs) \<subseteq> set cs"
  by (induction cs rule: dict_values.induct) auto

lemma pair_walk_ok_iff:
  "(\<exists>r'. pair_walk cs r = Inr r') \<longleftrightarrow> (\<forall>v\<in>set (dict_values cs). \<exists>y. parse_plist_value v = Inr y)"
  by (induction cs r rule: pair_walk.induct) (auto split: sum.splits)

lemma decode_ok_iff:
  "(\<exists>v. parse_plist_value e = Inr v) \<longleftrightarrow> (\<forall>n\<in>set (decode_calls e). \<not> malformed n)"
proof (induction e)
  case (Element t x cs)
  have self: "malformed (Element t x cs) \<longleftrightarrow>
      t = ''integer'' \<and> (\<exists>s. x = Some s \<and> s \<noteq> '''' \<and> py_int s = None)"
    by (auto simp: malformed_def py_int_spec split: option.splits)
  consider (dict) "t = ''dict''" | (array) "t = ''array''" | (other) "t \<noteq> ''dict''" "t \<noteq> ''array''"
    by blast
  then show ?case
  proof cases
    case dict
    have "(\<exists>v. parse_plist_value (Element t x cs) = Inr v) \<longleftrightarrow> (\<exists>r. pair_walk cs [] = Inr r)"
      by (auto simp: dict dict_loop_drop split: sum.splits)
    also have "\<dots> \<longleftrightarrow> (\<forall>v\<in>set (dict_values cs). \<exists>y. parse_plist_value v = Inr y)"
      by (rule pair_walk_ok_iff)
    also have "\<dots> \<longleftrightarrow> (\<forall>v\<in>set (dict_values cs). \<forall>n\<in>set (decode_calls v). \<not> malformed n)"
      using Element.IH dict_values_subset [of cs] by blast
    finally have ok: "(\<exists>v. parse_plist_value (Element t x cs) = Inr v) \<longleftrightarrow>
        (\<forall>v\<in>set (dict_values cs). \<forall>n\<in>set (decode_calls v). \<not> malformed n)" .
    have ns: "\<not> malformed (Element t x cs)" by (simp add: malformed_def dict)
    have dc: "set (decode_calls (Element t x cs)) =
        insert (Element t x cs) (\<Union>v\<in>set (dict_values cs). set (decode_calls v))"
      by (simp add: dict)
    show ?thesis unfolding ok dc using ns by blast
  next
    case array
    have "(\<exists>v. parse_plist_value (Element t x cs) = Inr v) \<longleftrightarrow>
          (\<exists>vs. collect (map parse_plist_value cs) = Inr vs)"
      by (auto simp: array split: sum.splits)
    also have "\<dots> \<longleftrightarrow> (\<forall>c\<in>set cs. \<exists>y. parse_plist_value c = Inr y)"
      by (simp add: collect_ok_iff)
    also have "\<dots> \<longleftrightarrow> (\<forall>c\<in>set cs. \<forall>n\<in>set (decode_calls c). \<not> malformed n)"
      using Element.IH by blast
    finally have ok: "(\<exists>v. parse_plist_value (Element t x cs) = Inr v) \<longleftrightarrow>
        (\<forall>c\<in>set cs. \<forall>n\<in>set (decode_calls c). \<not> malformed n)" .
    have ns: "\<not> malformed (Element t x cs)" by (simp add: malformed_def array)
    have dc: "set (decode_calls (Element t x cs)) =
        insert (Element t x cs) (\<Union>c\<in>set cs. set (decode_calls c))"
      by (simp add: array)
    show ?thesis unfolding ok dc using ns by blast
  next
    case other
    then show ?thesis by (auto simp: self split: option.splits)
  qed
qed

lemma decode_calls_subset: "set (decode_calls e) \<subseteq> set (all_nodes e)"
proof (induction e)
  case (Element t x cs)
  then show ?case using dict_values_subset [of cs] by (auto 4 3)
qed

subsection \<open>Keys the cursor stops at\<close>

text \<open>
  A key the cursor stops at, with a sibling after it, is assigned the decoded sibling; a name
  that no later such key carries keeps its value to the end of the loop.
\<close>

lemma dict_loop_keeps_keys: "dict_loop cs i r = Inr d \<Longrightarrow> fst ` set r \<subseteq> fst ` set d"
  by (simp add: dict_loop_drop pair_walk_keeps_keys)

lemma dict_loop_pair_step:
  assumes "i + 1 < length cs" and "tag (cs ! i) = ''key''"
  shows "dict_loop cs i r =
    (case parse_plist_value (cs ! (i + 1)) of
       Inl e \<Rightarrow> Inl e
     | Inr v \<Rightarrow> dict_loop cs (i + 2) (dict_set r (etext (cs ! i)) v))"
  using assms by (simp add: dict_loop.simps [of cs i])

lemma dict_loop_skip_step:
  assumes "i < length cs" and "\<not> (tag (cs ! i) = ''key'' \<and> i + 1 < length cs)"
  shows "dict_loop cs i r = dict_loop cs (i + 1) r"
  using assms by (auto simp: dict_loop.simps [of cs i])

lemma dict_loop_stop_assigned:
  "j \<in> set (loop_stops cs i) \<Longrightarrow> Suc j < length cs \<Longrightarrow> tag (cs ! j) = ''key'' \<Longrightarrow>
   dict_loop cs i r = Inr d \<Longrightarrow>
   \<exists>r' v. parse_plist_value (cs ! Suc j) = Inr v
     \<and> dict_loop cs (j + 2) (dict_set r' (etext (cs ! j)) v) = Inr d"
proof (induction cs i arbitrary: r rule: loop_stops.induct)
  case (1 cs i)
  from "1.prems"(1) have lt: "i < length cs"
    by (auto simp: loop_stops.simps [of cs i] split: if_splits)
  show ?case
  proof (cases "tag (cs ! i) = ''key'' \<and> i + 1 < length cs")
    case True
    with "1.prems"(4) obtain y where y: "parse_plist_value (cs ! (i + 1)) = Inr y"
      and w: "dict_loop cs (i + 2) (dict_set r (etext (cs ! i)) y) = Inr d"
      by (auto simp: dict_loop_pair_step split: sum.splits)
    show ?thesis
    proof (cases "j = i")
      case True
      with y w show ?thesis by auto
    next
      case False
      with "1.prems"(1) lt True have "j \<in> set (loop_stops cs (i + 2))"
        by (auto simp: loop_stops.simps [of cs i])
      from "1.IH"(1) [OF lt True this "1.prems"(2,3) w] show ?thesis .
    qed
  next
    case False
    with "1.prems"(2,3) have ne: "j \<noteq> i" by auto
    with "1.prems"(1) lt False have m: "j \<in> set (loop_stops cs (i + 1))"
      by (auto simp: loop_stops.simps [of cs i])
    from "1.prems"(4) have w: "dict_loop cs (i + 1) r = Inr d"
      using dict_loop_skip_step [OF lt False] by simp
    from "1.IH"(2) [OF lt False m "1.prems"(2,3) w] show ?thesis .
  qed
qed

lemma dict_loop_untouched:
  "dict_loop cs i r = Inr d \<Longrightarrow>
   (\<forall>j\<in>set (loop_stops cs i). Suc j < length cs \<and> tag (cs ! j) = ''key'' \<longrightarrow> etext (cs ! j) \<noteq> q) \<Longrightarrow>
   map_of d q = map_of r q"
proof (induction cs i arbitrary: r rule: loop_stops.induct)
  case (1 cs i)
  show ?case
  proof (cases "i < length cs")
    case False
    with "1.prems"(1) show ?thesis by (simp add: dict_loop_past_end)
  next
    case lt: True
    show ?thesis
    proof (cases "tag (cs ! i) = ''key'' \<and> i + 1 < length cs")
      case True
      with "1.prems"(1) obtain y where y: "parse_plist_value (cs ! (i + 1)) = Inr y"
        and w: "dict_loop cs (i + 2) (dict_set r (etext (cs ! i)) y) = Inr d"
        by (auto simp: dict_loop_pair_step split: sum.splits)
      have sub: "set (loop_stops cs (i + 2)) \<subseteq> set (loop_stops cs i)"
        using lt True by (auto simp: loop_stops.simps [of cs i])
      have "i \<in> set (loop_stops cs i)"
        using lt by (simp add: loop_stops.simps [of cs i])
      with "1.prems"(2) True have ne: "etext (cs ! i) \<noteq> q" by auto
      have "map_of d q = map_of (dict_set r (etext (cs ! i)) y) q"
        using "1.prems"(2) sub by (intro "1.IH"(1) [OF lt True w]) blast
      with ne show ?thesis by (simp add: map_of_dict_set)
    next
      case False
      have sub: "set (loop_stops cs (i + 1)) \<subseteq> set (loop_stops cs i)"
        using lt False by (auto simp: loop_stops.simps [of cs i])
      from "1.prems"(1) have w: "dict_loop cs (i + 1) r = Inr d"
        using dict_loop_skip_step [OF lt False] by simp
      show ?thesis
        using "1.prems"(2) sub by (intro "1.IH"(2) [OF lt False w]) blast
    qed
  qed
qed

subsection \<open>Decimal notation converts back\<close>

text \<open>The conversion reads the decimal notation of a number as that number.\<close>

lemma of_char_digit_char: "d < 10 \<Longrightarrow> of_char (digit_char d) = 48 + d"
  by (simp add: digit_char_def)

lemma digit_char_props:
  assumes "d < 10"
  shows "is_digit (digit_char d)" and "digit_val (digit_char d) = int d"
    and "\<not> is_space (digit_char d)" and "digit_char d \<noteq> CHR ''-''"
    and "digit_char d \<noteq> CHR ''+''" and "digit_char d \<noteq> CHR ''_''"
proof -
  note c = of_char_digit_char [OF assms]
  show "is_digit (digit_char d)" using assms by (simp add: is_digit_def c)
  show "digit_val (digit_char d) = int d" by (simp add: digit_val_def c)
  show "\<not> is_space (digit_char d)" by (simp add: is_space_def c)
  have ne: "digit_char d \<noteq> ch" if "of_char ch \<noteq> 48 + d" for ch
    using that c by auto
  show "digit_char d \<noteq> CHR ''-''" by (rule ne) simp
  show "digit_char d \<noteq> CHR ''+''" by (rule ne) simp
  show "digit_char d \<noteq> CHR ''_''" using assms by (intro ne) simp
qed

lemma parse_digits_all_digits:
  "list_all is_digit ds \<Longrightarrow>
   parse_digits ds acc = Some (foldl (\<lambda>a c. a * 10 + digit_val c) acc ds)"
  by (induction ds arbitrary: acc) auto

lemma show_nat_props:
  "show_nat n \<noteq> [] \<and> list_all is_digit (show_nat n)
   \<and> foldl (\<lambda>a c. a * 10 + digit_val c) 0 (show_nat n) = int n"
proof (induction n rule: show_nat.induct)
  case (1 n)
  show ?case
  proof (cases "n < 10")
    case True
    then show ?thesis
      by (simp add: show_nat.simps [of n] digit_char_props)
  next
    case False
    have m: "n mod 10 < 10" by simp
    have e: "int (n div 10) * 10 + int (n mod 10) = int n"
    proof -
      have "int (n div 10 * 10 + n mod 10) = int n" by simp
      then show ?thesis by (simp only: of_nat_add of_nat_mult of_nat_numeral)
    qed
    have u: "show_nat n = show_nat (n div 10) @ [digit_char (n mod 10)]"
      using False by (simp add: show_nat.simps [of n])
    from 1 False have ih: "list_all is_digit (show_nat (n div 10))"
      "foldl (\<lambda>a c. a * 10 + digit_val c) 0 (show_nat (n div 10)) = int (n div 10)"
      by simp_all
    have "foldl (\<lambda>a c. a * 10 + digit_val c) 0 (show_nat n) = int n"
      by (simp only: u foldl_append foldl.simps ih digit_char_props(2) [OF m] e)
    moreover have "list_all is_digit (show_nat n)"
      by (simp add: u ih digit_char_props(1) [OF m])
    moreover have "show_nat n \<noteq> []" by (simp add: u)
    ultimately show ?thesis by blast
  qed
qed

lemma parse_unsigned_show_nat: "parse_unsigned (show_nat n) = Some (int n)"
proof -
  from show_nat_props [of n] obtain c cs where s: "show_nat n = c # cs"
    by (cases "show_nat n") auto
  with show_nat_props [of n] have "is_digit c" by simp
  then have "parse_unsigned (show_nat n) = parse_digits (show_nat n) 0"
    by (simp add: parse_unsigned_def s)
  also have "\<dots> = Some (int n)"
    using show_nat_props [of n] by (simp add: parse_digits_all_digits)
  finally show ?thesis .
qed

lemma strip_id:
  assumes "s \<noteq> []" and "\<not> is_space (hd s)" and "\<not> is_space (last s)"
  shows "strip s = s"
proof -
  from assms have a: "dropWhile is_space s = s" by (cases s) auto
  from assms have "dropWhile is_space (rev s) = rev s"
    by (cases "rev s") (auto simp: last_rev [symmetric] simp del: last_rev)
  with a show ?thesis by (simp add: strip_def)
qed

lemma digit_not_space: "is_digit c \<Longrightarrow> \<not> is_space c"
  by (auto simp: is_digit_def is_space_def Let_def)

lemma digit_not_sign: "is_digit c \<Longrightarrow> c \<noteq> CHR ''-'' \<and> c \<noteq> CHR ''+''"
  by (auto simp: is_digit_def)

lemma py_int_show_int: "py_int (show_int n) = Some n"
proof -
  let ?m = "if n < 0 then nat (- n) else nat n"
  let ?s = "show_nat ?m"
  from show_nat_props [of ?m] have ne: "?s \<noteq> []" and ds: "list_all is_digit ?s" by simp_all
  then have hd: "is_digit (hd ?s)" and last: "is_digit (last ?s)"
    by (auto simp: list_all_iff)
  show ?thesis
  proof (cases "n < 0")
    case True
    then have s: "show_int n = CHR ''-'' # show_nat (nat (- n))" by (simp add: show_int_def)
    have "\<not> is_space CHR ''-''" by (simp add: is_space_def)
    then have "strip (show_int n) = show_int n"
      using ne last True by (intro strip_id) (simp_all add: s digit_not_space)
    then show ?thesis using True
      by (simp add: py_int_def s parse_unsigned_show_nat)
  next
    case False
    then have s: "show_int n = show_nat (nat n)" by (simp add: show_int_def)
    from ne False obtain c cs where cs: "show_nat (nat n) = c # cs"
      by (cases "show_nat (nat n)") auto
    have "strip (show_int n) = show_int n"
      using ne hd last False by (intro strip_id) (simp_all add: s digit_not_space)
    moreover have "c \<noteq> CHR ''-''" "c \<noteq> CHR ''+''"
      using hd False digit_not_sign [of c] by (simp_all add: cs)
    ultimately show ?thesis using False parse_unsigned_show_nat [of "nat n"]
      by (simp add: py_int_def s cs)
  qed
qed

lemma show_int_nonempty: "show_int n \<noteq> []"
  using show_nat_props by (simp add: show_int_def)

section \<open>The dictionary walk\<close>

text \<open>
  Claim C1. For a \<open>dict\<close> element the decoder builds its record by one walk of a cursor over
  the children, from left to right: where the child under the cursor has the tag \<open>key\<close> and
  a next child exists, the key's text is the field name, the decoded next child is the field
  value, the entry is assigned (assignment to a name already present overwrites its value) and
  the cursor moves by two; otherwise the cursor moves by one and no entry is made. As many
  steps as there are children suffice, and a walk that returns ends with the cursor at the
  end. An exception from decoding a value ends the walk and is the result.
\<close>

theorem dict_cursor_walk:
  "parse_plist_value (Element ''dict'' x cs) =
     (case spec_walk (length cs) cs \<lparr>cursor = 0, entries = []\<rparr> of
        Inl e \<Rightarrow> Inl e
      | Inr s \<Rightarrow> Inr (PyDict (entries s)))
   \<and> (\<forall>s. spec_walk (length cs) cs \<lparr>cursor = 0, entries = []\<rparr> = Inr s \<longrightarrow> cursor s = length cs)
   \<and> map_of (dict_set r k v) = (map_of r)(k \<mapsto> v)"
  using spec_walk_dict_loop [of "\<lparr>cursor = 0, entries = []\<rparr>" cs "length cs"]
  by (auto simp: map_of_dict_set split: sum.splits)

theorem dict_cursor_walk_witness:
  "spec_walk 4 [Element ''key'' (Some ''A'') [], Element ''string'' (Some ''x'') [],
                Element ''date'' None [], Element ''key'' (Some ''A'') []]
     \<lparr>cursor = 0, entries = []\<rparr> = Inr \<lparr>cursor = 4, entries = [(Some ''A'', PyStr ''x'')]\<rparr>
   \<and> parse_plist_value (Element ''dict'' None
        [Element ''key'' (Some ''A'') [], Element ''string'' (Some ''x'') [],
         Element ''date'' None [], Element ''key'' (Some ''A'') []]) =
       Inr (PyDict [(Some ''A'', PyStr ''x'')])"
proof -
  let ?cs = "[Element ''key'' (Some ''A'') [], Element ''string'' (Some ''x'') [],
              Element ''date'' None [], Element ''key'' (Some ''A'') []]"
  have w: "spec_walk 4 ?cs \<lparr>cursor = 0, entries = []\<rparr> =
      Inr \<lparr>cursor = 4, entries = [(Some ''A'', PyStr ''x'')]\<rparr>"
    by (simp add: eval_nat_numeral spec_walk_step_def)
  have l: "length ?cs = 4" by simp
  have p: "parse_plist_value (Element ''dict'' None ?cs) = Inr (PyDict [(Some ''A'', PyStr ''x'')])"
    using dict_cursor_walk [of None ?cs, THEN conjunct1]
    by (simp only: l w sum.case spec_walk_state.simps)
  from w p show ?thesis by (rule conjI)
qed

text \<open>
  Claim C2, as amended. For a \<open>dict\<close> element whose children are N key/value sibling pairs,
  every value of which decodes, the decoder returns a record with one entry for each distinct
  key, in the order in which the keys first occur, each key holding the value of its last
  occurrence; when the N keys are pairwise distinct these are exactly the N entries in source
  order.
\<close>

theorem dict_pairs_record:
  assumes "keys_tagged ps"
    and "map (\<lambda>(k, v). parse_plist_value v) ps = map Inr vals"
  shows "\<exists>d. parse_plist_value (Element ''dict'' x (pairs ps)) = Inr (PyDict d)
     \<and> map fst d = first_seen (map (\<lambda>(k, v). etext k) ps)
     \<and> length d = card (set (map (\<lambda>(k, v). etext k) ps))
     \<and> map_of d = map_of (rev (zip (map (\<lambda>(k, v). etext k) ps) vals))
     \<and> (distinct (map (\<lambda>(k, v). etext k) ps) \<longrightarrow>
          d = zip (map (\<lambda>(k, v). etext k) ps) vals \<and> length d = length ps)"
proof -
  let ?keys = "map (\<lambda>(k, v). etext k) ps"
  let ?d = "set_all [] (zip ?keys vals)"
  have len: "length vals = length ps"
    using assms(2) by (metis length_map)
  then have keys: "map fst (zip ?keys vals) = ?keys" by simp
  have "collect (map (\<lambda>(k, v). parse_plist_value v) ps) = Inr vals"
    by (simp add: assms(2) collect_map_Inr)
  then have a: "parse_plist_value (Element ''dict'' x (pairs ps)) = Inr (PyDict ?d)"
    using parse_dict_pairs [OF assms(1), of x "[]"] by simp
  have b: "map fst ?d = first_seen ?keys"
    using keys_set_all [of "[]" "zip ?keys vals"] by (simp add: keys)
  have "length (map fst ?d) = card (set (first_seen ?keys))"
    by (simp only: b distinct_card [OF distinct_first_seen])
  then have n: "length ?d = card (set ?keys)"
    by (simp only: length_map set_first_seen)
  have c: "map_of ?d = map_of (rev (zip ?keys vals))"
    by (simp add: map_of_set_all)
  have d: "?d = zip ?keys vals \<and> length ?d = length ps" if "distinct ?keys"
    using that set_all_distinct [of "[]" "zip ?keys vals"] len by (simp add: keys)
  from a b n c d show ?thesis by blast
qed

theorem dict_pairs_record_witness:
  "keys_tagged [(Element ''key'' (Some ''Name'') [], Element ''string'' (Some ''So What'') []),
                (Element ''key'' (Some ''Play Count'') [], Element ''integer'' (Some ''7'') [])]
   \<and> parse_plist_value (Element ''string'' (Some ''So What'') []) = Inr (PyStr ''So What'')
   \<and> parse_plist_value (Element ''integer'' (Some ''7'') []) = Inr (PyInt 7)
   \<and> distinct [Some ''Name'', Some ''Play Count'']
   \<and> parse_plist_value (Element ''dict'' None
        [Element ''key'' (Some ''Name'') [], Element ''string'' (Some ''So What'') [],
         Element ''key'' (Some ''Play Count'') [], Element ''integer'' (Some ''7'') []]) =
       Inr (PyDict [(Some ''Name'', PyStr ''So What''), (Some ''Play Count'', PyInt 7)])"
proof -
  let ?ps = "[(Element ''key'' (Some ''Name'') [], Element ''string'' (Some ''So What'') []),
              (Element ''key'' (Some ''Play Count'') [], Element ''integer'' (Some ''7'') [])]"
  have i: "py_int ''7'' = Some 7" by code_simp
  have k: "keys_tagged ?ps" by (simp add: keys_tagged_def)
  have v: "map (\<lambda>(k, v). parse_plist_value v) ?ps = map Inr [PyStr ''So What'', PyInt 7]"
    by (simp add: i)
  from dict_pairs_record [OF k v, of None] k i show ?thesis
    by (auto simp: pairs_def)
qed

text \<open>
  The count the claim states fails on a repeated key: two well-formed pairs with the key
  \<open>A\<close> decode to a record of one entry.
\<close>

theorem dict_pairs_count_counterexample:
  "keys_tagged [(Element ''key'' (Some ''A'') [], Element ''string'' (Some ''x'') []),
                (Element ''key'' (Some ''A'') [], Element ''string'' (Some ''y'') [])]
   \<and> length [(Element ''key'' (Some ''A'') [], Element ''string'' (Some ''x'') []),
              (Element ''key'' (Some ''A'') [], Element ''string'' (Some ''y'') [])] = 2
   \<and> parse_plist_value (Element ''dict'' None
        (pairs [(Element ''key'' (Some ''A'') [], Element ''string'' (Some ''x'') []),
                (Element ''key'' (Some ''A'') [], Element ''string'' (Some ''y'') [])])) =
       Inr (PyDict [(Some ''A'', PyStr ''y'')])
   \<and> length [(Some ''A'', PyStr ''y'')] = 1"
  by (simp add: keys_tagged_def pairs_def dict_loop_drop)

section \<open>Primitive tags\<close>

text \<open>
  Claim C7. The primitive tags: a \<open>string\<close> element decodes to its raw text, and to the empty
  text when the content is absent or empty; \<open>true\<close> and \<open>false\<close> decode to the two booleans;
  a \<open>date\<close> element decodes to its raw text, unparsed. Text content and children of \<open>true\<close> and
  \<open>false\<close> elements are ignored.
\<close>

theorem primitive_tags:
  "parse_plist_value (Element ''string'' x cs) = Inr (PyStr (case x of None \<Rightarrow> '''' | Some s \<Rightarrow> s))
   \<and> parse_plist_value (Element ''true'' x cs) = Inr (PyBool True)
   \<and> parse_plist_value (Element ''false'' x cs) = Inr (PyBool False)
   \<and> parse_plist_value (Element ''date'' x cs) = Inr (PyStr (case x of None \<Rightarrow> '''' | Some s \<Rightarrow> s))"
  by (simp split: option.split)

theorem primitive_tags_witness:
  "parse_plist_value (Element ''string'' (Some ''Blue Train'') []) = Inr (PyStr ''Blue Train'')
   \<and> parse_plist_value (Element ''string'' None []) = Inr (PyStr '''')
   \<and> parse_plist_value (Element ''true'' None []) = Inr (PyBool True)
   \<and> parse_plist_value (Element ''false'' None []) = Inr (PyBool False)
   \<and> parse_plist_value (Element ''date'' (Some ''2024-01-05T10:00:00Z'') []) =
       Inr (PyStr ''2024-01-05T10:00:00Z'')"
  using primitive_tags [of "Some ''Blue Train''" "[]"] primitive_tags [of None "[]"]
    primitive_tags [of "Some ''2024-01-05T10:00:00Z''" "[]"]
  by simp

section \<open>Unknown tags\<close>

text \<open>
  Claim C8. An element whose tag is none of \<open>string\<close>, \<open>integer\<close>, \<open>true\<close>, \<open>false\<close>,
  \<open>date\<close>, \<open>dict\<close>, \<open>array\<close> decodes to the null value, and no exception is raised,
  whatever its text and children are.
\<close>

theorem unknown_tag:
  assumes "t \<notin> {''string'', ''integer'', ''true'', ''false'', ''date'', ''dict'', ''array''}"
  shows "parse_plist_value (Element t x cs) = Inr PyNone"
  using assms by simp

theorem unknown_tag_witness:
  "''real'' \<notin> {''string'', ''integer'', ''true'', ''false'', ''date'', ''dict'', ''array''}
   \<and> parse_plist_value (Element ''real'' (Some ''3.5'') []) = Inr PyNone"
  using unknown_tag [of "''real''" "Some ''3.5''" "[]"] by simp

section \<open>Integers\<close>

text \<open>
  Claim C3. An \<open>integer\<close> element decodes to the whole number its text denotes when the text
  is an integer literal; absent or empty text decodes to 0; text that is not empty and is no
  integer literal raises the conversion's \<open>ValueError\<close>, which reaches the caller in place of
  any value, so that no such text is given a default. The text is taken to be ASCII.
\<close>

theorem integer_tag:
  assumes "is_ascii s"
  shows "parse_plist_value (Element ''integer'' None cs) = Inr (PyInt 0)
   \<and> parse_plist_value (Element ''integer'' (Some '''') cs) = Inr (PyInt 0)
   \<and> (int_literal s \<longrightarrow>
        parse_plist_value (Element ''integer'' (Some s) cs) = Inr (PyInt (literal_value s)))
   \<and> (s \<noteq> '''' \<and> \<not> int_literal s \<longrightarrow>
        parse_plist_value (Element ''integer'' (Some s) cs) = Inl (ValueError s))"
proof -
  have "\<not> int_literal ''''"
    by (simp add: int_literal_def spec_trim_def spec_unsigned_def spec_body_def)
  then have "s \<noteq> ''''" if "int_literal s" using that by auto
  then show ?thesis by (auto simp: py_int_spec)
qed

theorem integer_tag_witness:
  "is_ascii ''42'' \<and> int_literal ''42'' \<and> literal_value ''42'' = 42
   \<and> parse_plist_value (Element ''integer'' (Some ''42'') []) = Inr (PyInt 42)
   \<and> parse_plist_value (Element ''integer'' (Some '''') []) = Inr (PyInt 0)
   \<and> parse_plist_value (Element ''integer'' None []) = Inr (PyInt 0)
   \<and> is_ascii '' -1_000 '' \<and> int_literal '' -1_000 '' \<and> literal_value '' -1_000 '' = - 1000
   \<and> parse_plist_value (Element ''integer'' (Some '' -1_000 '') []) = Inr (PyInt (- 1000))
   \<and> is_ascii ''abc'' \<and> ''abc'' \<noteq> '''' \<and> \<not> int_literal ''abc''
   \<and> parse_plist_value (Element ''integer'' (Some ''abc'') []) = Inl (ValueError ''abc'')
   \<and> is_ascii [CHR 0x1C, CHR ''7''] \<and> \<not> int_literal [CHR 0x1C, CHR ''7'']
   \<and> parse_plist_value (Element ''integer'' (Some [CHR 0x1C, CHR ''7'']) []) =
       Inl (ValueError [CHR 0x1C, CHR ''7''])"
proof -
  have a1: "is_ascii ''42''" and l1: "int_literal ''42''" and v1: "literal_value ''42'' = 42"
    by code_simp+
  have a2: "is_ascii '' -1_000 ''" and l2: "int_literal '' -1_000 ''"
    and v2: "literal_value '' -1_000 '' = - 1000"
    by code_simp+
  have a3: "is_ascii ''abc''" and l3: "\<not> int_literal ''abc''"
    by code_simp+
  have a4: "is_ascii [CHR 0x1C, CHR ''7'']" and l4: "\<not> int_literal [CHR 0x1C, CHR ''7'']"
    by code_simp+
  have n3: "''abc'' \<noteq> ''''" and n4: "[CHR 0x1C, CHR ''7''] \<noteq> ''''" by simp_all
  note t1 = integer_tag [OF a1, of "[]"]
  note t2 = integer_tag [OF a2, of "[]"]
  note t3 = integer_tag [OF a3, of "[]"]
  note t4 = integer_tag [OF a4, of "[]"]
  have p0: "parse_plist_value (Element ''integer'' None []) = Inr (PyInt 0)"
    and p00: "parse_plist_value (Element ''integer'' (Some '''') []) = Inr (PyInt 0)"
    using t1 by blast+
  have p1: "parse_plist_value (Element ''integer'' (Some ''42'') []) = Inr (PyInt 42)"
    using t1 l1 unfolding v1 by blast
  have p2: "parse_plist_value (Element ''integer'' (Some '' -1_000 '') []) = Inr (PyInt (- 1000))"
    using t2 l2 unfolding v2 by blast
  have p3: "parse_plist_value (Element ''integer'' (Some ''abc'') []) = Inl (ValueError ''abc'')"
    using t3 l3 n3 by blast
  have p4: "parse_plist_value (Element ''integer'' (Some [CHR 0x1C, CHR ''7'']) []) =
       Inl (ValueError [CHR 0x1C, CHR ''7''])"
    using t4 l4 n4 by blast
  from a1 l1 v1 p1 p00 p0 a2 l2 v2 p2 a3 n3 l3 p3 a4 l4 p4 show ?thesis
    by (intro conjI)
qed

section \<open>Dangling keys\<close>

text \<open>
  Claim C4. A \<open>key\<close> child of a \<open>dict\<close> element with no following sibling gives no entry and
  raises nothing: after well-formed key/value pairs a last child without a partner, whatever
  its tag, leaves the result what it is without that child. So the children
  \<open>key A, string x, key B\<close> decode to the record with the one entry \<open>A\<close>, the text \<open>x\<close>.
\<close>

theorem dangling_key_dropped:
  assumes "keys_tagged ps"
  shows "parse_plist_value (Element ''dict'' x (pairs ps @ [k])) =
         parse_plist_value (Element ''dict'' x (pairs ps))"
  using parse_dict_pairs [OF assms, of x "[k]"] parse_dict_pairs [OF assms, of x "[]"]
  by (simp split: sum.splits)

theorem dangling_key_dropped_witness:
  "keys_tagged [(Element ''key'' (Some ''A'') [], Element ''string'' (Some ''x'') [])]
   \<and> parse_plist_value (Element ''dict'' None
        [Element ''key'' (Some ''A'') [], Element ''string'' (Some ''x'') [],
         Element ''key'' (Some ''B'') []]) =
       Inr (PyDict [(Some ''A'', PyStr ''x'')])"
proof -
  have k: "keys_tagged [(Element ''key'' (Some ''A'') [], Element ''string'' (Some ''x'') [])]"
    by (simp add: keys_tagged_def)
  from dangling_key_dropped [OF k, of None "Element ''key'' (Some ''B'') []"] k
  show ?thesis by (simp add: pairs_def dict_loop_drop)
qed

section \<open>Failure\<close>

text \<open>
  Claim C5. The decoder raises nothing on a tree in which no \<open>integer\<close> element has text that
  is not empty and is no integer literal; dangling keys and unknown tags are no errors. When
  such an element is among those a call decodes, at any depth, the call as a whole ends with
  the conversion's exception and returns no value. The texts of the \<open>integer\<close> elements are
  taken to be ASCII.
\<close>

theorem decode_never_raises_or_aborts:
  assumes "\<forall>n\<in>set (all_nodes e). tag n = ''integer'' \<longrightarrow> ascii_text n"
  shows "((\<forall>n\<in>set (all_nodes e). \<not> malformed n) \<longrightarrow> (\<exists>v. parse_plist_value e = Inr v))
   \<and> ((\<exists>n\<in>set (decode_calls e). malformed n) \<longrightarrow> (\<exists>s. parse_plist_value e = Inl (ValueError s)))"
proof (intro conjI impI)
  assume "\<forall>n\<in>set (all_nodes e). \<not> malformed n"
  then have "\<forall>n\<in>set (decode_calls e). \<not> malformed n"
    using decode_calls_subset [of e] by blast
  then show "\<exists>v. parse_plist_value e = Inr v" by (simp add: decode_ok_iff)
next
  assume "\<exists>n\<in>set (decode_calls e). malformed n"
  then have "\<not> (\<exists>v. parse_plist_value e = Inr v)" by (simp add: decode_ok_iff)
  then obtain err where "parse_plist_value e = Inl err"
    by (cases "parse_plist_value e") auto
  then show "\<exists>s. parse_plist_value e = Inl (ValueError s)"
    by (cases err) auto
qed

theorem decode_never_raises_or_aborts_witness:
  "list_all (\<lambda>n. tag n \<noteq> ''integer'' \<or> ascii_text n)
     (all_nodes (Element ''dict'' None
        [Element ''key'' (Some ''Rating'') [], Element ''real'' (Some ''4.5'') [],
         Element ''key'' (Some ''Year'') [], Element ''integer'' (Some ''1959'') [],
         Element ''key'' (Some ''Kind'') []]))
   \<and> list_all (\<lambda>n. \<not> malformed n)
     (all_nodes (Element ''dict'' None
        [Element ''key'' (Some ''Rating'') [], Element ''real'' (Some ''4.5'') [],
         Element ''key'' (Some ''Year'') [], Element ''integer'' (Some ''1959'') [],
         Element ''key'' (Some ''Kind'') []]))
   \<and> parse_plist_value (Element ''dict'' None
        [Element ''key'' (Some ''Rating'') [], Element ''real'' (Some ''4.5'') [],
         Element ''key'' (Some ''Year'') [], Element ''integer'' (Some ''1959'') [],
         Element ''key'' (Some ''Kind'') []]) =
       Inr (PyDict [(Some ''Rating'', PyNone), (Some ''Year'', PyInt 1959)])
   \<and> list_all (\<lambda>n. tag n \<noteq> ''integer'' \<or> ascii_text n)
     (all_nodes (Element ''array'' None
        [Element ''string'' (Some ''ok'') [],
         Element ''dict'' None
           [Element ''key'' (Some ''Year'') [], Element ''integer'' (Some ''19x9'') []]]))
   \<and> (\<exists>n\<in>set (decode_calls (Element ''array'' None
        [Element ''string'' (Some ''ok'') [],
         Element ''dict'' None
           [Element ''key'' (Some ''Year'') [], Element ''integer'' (Some ''19x9'') []]])).
        malformed n)
   \<and> parse_plist_value (Element ''array'' None
        [Element ''string'' (Some ''ok'') [],
         Element ''dict'' None
           [Element ''key'' (Some ''Year'') [], Element ''integer'' (Some ''19x9'') []]]) =
       Inl (ValueError ''19x9'')"
proof -
  let ?good = "Element ''dict'' None
        [Element ''key'' (Some ''Rating'') [], Element ''real'' (Some ''4.5'') [],
         Element ''key'' (Some ''Year'') [], Element ''integer'' (Some ''1959'') [],
         Element ''key'' (Some ''Kind'') []]"
  let ?bad = "Element ''array'' None
        [Element ''string'' (Some ''ok'') [],
         Element ''dict'' None
           [Element ''key'' (Some ''Year'') [], Element ''integer'' (Some ''19x9'') []]]"
  have i: "py_int ''1959'' = Some 1959" by code_simp
  have j: "py_int ''19x9'' = None" by code_simp
  have li: "int_literal ''1959''" by code_simp
  have lj: "\<not> int_literal ''19x9''" by code_simp
  have ai: "is_ascii ''1959''" by code_simp
  have aj: "is_ascii ''19x9''" by code_simp
  have ag: "list_all (\<lambda>n. tag n \<noteq> ''integer'' \<or> ascii_text n) (all_nodes ?good)"
    by (simp add: ascii_text_def ai)
  have ab: "list_all (\<lambda>n. tag n \<noteq> ''integer'' \<or> ascii_text n) (all_nodes ?bad)"
    by (simp add: ascii_text_def aj)
  have g: "list_all (\<lambda>n. \<not> malformed n) (all_nodes ?good)"
    by (simp add: malformed_def li)
  have b: "\<exists>n\<in>set (decode_calls ?bad). malformed n"
    by (simp add: malformed_def lj)
  have pg: "parse_plist_value ?good =
      Inr (PyDict [(Some ''Rating'', PyNone), (Some ''Year'', PyInt 1959)])"
    by (simp add: dict_loop_drop i)
  have pb: "parse_plist_value ?bad = Inl (ValueError ''19x9'')"
    by (simp add: dict_loop_drop j)
  have hg: "\<forall>n\<in>set (all_nodes ?good). tag n = ''integer'' \<longrightarrow> ascii_text n"
    using ag unfolding list_all_iff by blast
  have hb: "\<forall>n\<in>set (all_nodes ?bad). tag n = ''integer'' \<longrightarrow> ascii_text n"
    using ab unfolding list_all_iff by blast
  from g have "\<exists>v. parse_plist_value ?good = Inr v"
    using decode_never_raises_or_aborts [OF hg, THEN conjunct1]
    by (simp only: list_all_iff)
  moreover from b have "\<exists>s. parse_plist_value ?bad = Inl (ValueError s)"
    using decode_never_raises_or_aborts [OF hb, THEN conjunct2] by (rule rev_mp)
  ultimately show ?thesis using ag g pg ab b pb by (intro conjI)
qed

section \<open>Arrays\<close>

text \<open>
  Claim C6. For an \<open>array\<close> element with the children \<open>c1 .. cn\<close> the decoder returns a list
  of length n whose i-th element is the decoded \<open>ci\<close>, in source order; it returns one
  whenever every child decodes, and without children it returns the empty list.
\<close>

theorem array_elements:
  "parse_plist_value (Element ''array'' x []) = Inr (PyList [])
   \<and> ((\<forall>c\<in>set cs. \<exists>v. parse_plist_value c = Inr v) \<longrightarrow>
        (\<exists>vs. parse_plist_value (Element ''array'' x cs) = Inr (PyList vs)))
   \<and> (\<forall>vs. parse_plist_value (Element ''array'' x cs) = Inr (PyList vs) \<longrightarrow>
        length vs = length cs \<and> (\<forall>i<length cs. parse_plist_value (cs ! i) = Inr (vs ! i)))"
proof (intro conjI impI allI)
  show "parse_plist_value (Element ''array'' x []) = Inr (PyList [])" by simp
next
  assume "\<forall>c\<in>set cs. \<exists>v. parse_plist_value c = Inr v"
  then have "\<exists>vs. collect (map parse_plist_value cs) = Inr vs"
    by (simp add: collect_ok_iff)
  then show "\<exists>vs. parse_plist_value (Element ''array'' x cs) = Inr (PyList vs)"
    by auto
next
  fix vs
  assume a: "parse_plist_value (Element ''array'' x cs) = Inr (PyList vs)"
  then have "collect (map parse_plist_value cs) = Inr vs"
    by (auto split: sum.splits)
  then have m: "map parse_plist_value cs = map Inr vs"
    by (simp add: collect_Inr_iff)
  then show "length vs = length cs" by (metis length_map)
  fix i assume "i < length cs"
  with m show "parse_plist_value (cs ! i) = Inr (vs ! i)"
    by (metis length_map nth_map)
qed

theorem array_elements_witness:
  "list_all (\<lambda>c. \<exists>v. parse_plist_value c = Inr v)
     [Element ''integer'' (Some ''12'') [], Element ''true'' None []]
   \<and> parse_plist_value (Element ''array'' None
        [Element ''integer'' (Some ''12'') [], Element ''true'' None []]) =
       Inr (PyList [PyInt 12, PyBool True])
   \<and> length [PyInt 12, PyBool True] = length [Element ''integer'' (Some ''12'') [], Element ''true'' None []]
   \<and> parse_plist_value ([Element ''integer'' (Some ''12'') [], Element ''true'' None []] ! 1) =
       Inr ([PyInt 12, PyBool True] ! 1)"
proof -
  let ?cs = "[Element ''integer'' (Some ''12'') [], Element ''true'' None []]"
  have i: "py_int ''12'' = Some 12" by code_simp
  have c: "list_all (\<lambda>c. \<exists>v. parse_plist_value c = Inr v) ?cs" by (simp add: i)
  have p: "parse_plist_value (Element ''array'' None ?cs) = Inr (PyList [PyInt 12, PyBool True])"
    by (simp add: i)
  have "length [PyInt 12, PyBool True] = length ?cs
      \<and> (\<forall>i<length ?cs. parse_plist_value (?cs ! i) = Inr ([PyInt 12, PyBool True] ! i))"
    using array_elements [of None ?cs, THEN conjunct2, THEN conjunct2, THEN spec, THEN mp, OF p] .
  then have "length [PyInt 12, PyBool True] = length ?cs"
    and "parse_plist_value (?cs ! 1) = Inr ([PyInt 12, PyBool True] ! 1)"
    by simp_all
  with c p show ?thesis by (intro conjI)
qed

section \<open>Encoding and decoding again\<close>

text \<open>
  Claim C9. Decoding the encoding of a value returns the value, entries in the same order and
  with the same values: for every record, and every other value, whose dictionaries hold each
  key once, as the dictionaries of the language do.
\<close>

theorem encode_roundtrip:
  assumes "wf_value v"
  shows "parse_plist_value (encode v) = Inr v"
  using assms
proof (induction v)
  case (PyDict d)
  let ?ps = "map (\<lambda>(k, v). (Element ''key'' k [], encode v)) d"
  have ch: "concat (map (\<lambda>(k, v). [Element ''key'' k [], encode v]) d) = pairs ?ps"
    by (simp add: pairs_def comp_def case_prod_unfold)
  have kt: "keys_tagged ?ps"
    by (simp add: keys_tagged_def list_all_iff case_prod_unfold)
  have "parse_plist_value (encode (snd p)) = Inr (snd p)" if "p \<in> set d" for p
  proof -
    obtain k w where p: "p = (k, w)" by (cases p)
    with that PyDict.prems have "wf_value w" by auto
    with PyDict.IH [of p w] that p show ?thesis by simp
  qed
  then have vs: "map (\<lambda>(k, v). parse_plist_value v) ?ps = map Inr (map snd d)"
    by (simp add: comp_def case_prod_unfold)
  have ks: "map (\<lambda>(k, v). etext k) ?ps = map fst d"
    by (simp add: comp_def case_prod_unfold)
  from PyDict.prems have "distinct (map fst d)" by simp
  then have sa: "set_all [] (zip (map fst d) (map snd d)) = d"
    by (simp add: zip_map_fst_snd set_all_self)
  have c1: "collect (map (\<lambda>(k, v). parse_plist_value v) ?ps) = Inr (map snd d)"
    by (simp only: vs collect_map_Inr)
  have "parse_plist_value (Element ''dict'' None (pairs ?ps @ [])) = Inr (PyDict d)"
    unfolding parse_dict_pairs [OF kt] c1 ks by (simp add: sa)
  then show ?case by (simp only: encode.simps ch append_Nil2)
next
  case (PyList vs)
  then have "map parse_plist_value (map encode vs) = map Inr vs" by simp
  then show ?case by (simp add: collect_map_Inr del: map_map)
qed (simp_all add: py_int_show_int show_int_nonempty)

theorem encode_roundtrip_witness:
  "wf_value (PyDict [(Some ''Name'', PyStr ''So What''), (Some ''Plays'', PyInt (- 12)),
                     (Some ''Tags'', PyList [PyBool True, PyDict []])])
   \<and> encode (PyDict [(Some ''Name'', PyStr ''So What''), (Some ''Plays'', PyInt (- 12)),
                     (Some ''Tags'', PyList [PyBool True, PyDict []])]) =
       Element ''dict'' None
         [Element ''key'' (Some ''Name'') [], Element ''string'' (Some ''So What'') [],
          Element ''key'' (Some ''Plays'') [], Element ''integer'' (Some ''-12'') [],
          Element ''key'' (Some ''Tags'') [],
          Element ''array'' None [Element ''true'' None [], Element ''dict'' None []]]
   \<and> parse_plist_value (Element ''dict'' None
         [Element ''key'' (Some ''Name'') [], Element ''string'' (Some ''So What'') [],
          Element ''key'' (Some ''Plays'') [], Element ''integer'' (Some ''-12'') [],
          Element ''key'' (Some ''Tags'') [],
          Element ''array'' None [Element ''true'' None [], Element ''dict'' None []]]) =
       Inr (PyDict [(Some ''Name'', PyStr ''So What''), (Some ''Plays'', PyInt (- 12)),
                    (Some ''Tags'', PyList [PyBool True, PyDict []])])"
proof -
  let ?v = "PyDict [(Some ''Name'', PyStr ''So What''), (Some ''Plays'', PyInt (- 12)),
                    (Some ''Tags'', PyList [PyBool True, PyDict []])]"
  have s: "show_int (- 12) = ''-12''" by code_simp
  have w: "wf_value ?v" by simp
  have e: "encode ?v = Element ''dict'' None
         [Element ''key'' (Some ''Name'') [], Element ''string'' (Some ''So What'') [],
          Element ''key'' (Some ''Plays'') [], Element ''integer'' (Some ''-12'') [],
          Element ''key'' (Some ''Tags'') [],
          Element ''array'' None [Element ''true'' None [], Element ''dict'' None []]]"
    by (simp add: s)
  from encode_roundtrip [OF w] have "parse_plist_value (encode ?v) = Inr ?v" .
  then have "parse_plist_value (Element ''dict'' None
         [Element ''key'' (Some ''Name'') [], Element ''string'' (Some ''So What'') [],
          Element ''key'' (Some ''Plays'') [], Element ''integer'' (Some ''-12'') [],
          Element ''key'' (Some ''Tags'') [],
          Element ''array'' None [Element ''true'' None [], Element ''dict'' None []]]) = Inr ?v"
    by (simp only: e)
  with w e show ?thesis by (intro conjI)
qed

section \<open>Keys without text\<close>

text \<open>
  Claim C10, as amended. For a \<open>dict\<close> element with a \<open>key\<close> child whose text is absent, at
  which the cursor of the walk stops (the child is not itself taken as the value of the key
  before it) and which has a following sibling: the pair is neither skipped nor rejected.
  Decoding returns a record whenever every value child the loop decodes does; and a record it
  returns has an entry under the null key, not under a text, whose value is the decoded
  sibling unless a later key without text, stopped at and followed by a sibling, assigns the
  null key again.
\<close>

theorem absent_key_text_entry:
  assumes "i \<in> set (loop_stops cs 0)" and "Suc i < length cs"
    and "tag (cs ! i) = ''key''" and "etext (cs ! i) = None"
  shows "((\<forall>v\<in>set (dict_values cs). \<exists>y. parse_plist_value v = Inr y) \<longrightarrow>
            (\<exists>d. parse_plist_value (Element ''dict'' x cs) = Inr (PyDict d)))
     \<and> (\<forall>res. parse_plist_value (Element ''dict'' x cs) = Inr res \<longrightarrow>
          (\<exists>d v. res = PyDict d \<and> parse_plist_value (cs ! Suc i) = Inr v \<and> None \<in> fst ` set d
             \<and> ((\<forall>j\<in>set (loop_stops cs (i + 2)).
                    Suc j < length cs \<and> tag (cs ! j) = ''key'' \<longrightarrow> etext (cs ! j) \<noteq> None)
                  \<longrightarrow> map_of d None = Some v)))"
proof (intro conjI impI allI)
  assume "\<forall>v\<in>set (dict_values cs). \<exists>y. parse_plist_value v = Inr y"
  then obtain r where "pair_walk cs [] = Inr r"
    using pair_walk_ok_iff [of cs "[]"] by blast
  then show "\<exists>d. parse_plist_value (Element ''dict'' x cs) = Inr (PyDict d)"
    by (simp add: dict_loop_drop)
next
  fix res
  assume "parse_plist_value (Element ''dict'' x cs) = Inr res"
  then obtain d where res: "res = PyDict d" and w: "dict_loop cs 0 [] = Inr d"
    by (auto split: sum.splits)
  from dict_loop_stop_assigned [OF assms(1-3) w] assms(4)
  obtain r' v where v: "parse_plist_value (cs ! Suc i) = Inr v"
    and t: "dict_loop cs (i + 2) (dict_set r' None v) = Inr d"
    by auto
  from dict_loop_keeps_keys [OF t] have k: "None \<in> fst ` set d"
    by (auto simp: set_keys_dict_set)
  have "map_of d None = Some v"
    if "\<forall>j\<in>set (loop_stops cs (i + 2)).
          Suc j < length cs \<and> tag (cs ! j) = ''key'' \<longrightarrow> etext (cs ! j) \<noteq> None"
    using dict_loop_untouched [OF t that] by (simp add: map_of_dict_set)
  with res v k show "\<exists>d v. res = PyDict d \<and> parse_plist_value (cs ! Suc i) = Inr v
      \<and> None \<in> fst ` set d
      \<and> ((\<forall>j\<in>set (loop_stops cs (i + 2)).
             Suc j < length cs \<and> tag (cs ! j) = ''key'' \<longrightarrow> etext (cs ! j) \<noteq> None)
           \<longrightarrow> map_of d None = Some v)"
    by blast
qed

theorem absent_key_text_entry_witness:
  "1 \<in> set (loop_stops [Element ''string'' (Some ''s'') [], Element ''key'' None [],
                          Element ''integer'' (Some ''3'') []] 0)
   \<and> Suc 1 < length [Element ''string'' (Some ''s'') [], Element ''key'' None [],
                      Element ''integer'' (Some ''3'') []]
   \<and> tag ([Element ''string'' (Some ''s'') [], Element ''key'' None [],
            Element ''integer'' (Some ''3'') []] ! 1) = ''key''
   \<and> etext ([Element ''string'' (Some ''s'') [], Element ''key'' None [],
              Element ''integer'' (Some ''3'') []] ! 1) = None
   \<and> parse_plist_value (Element ''dict'' None
        [Element ''string'' (Some ''s'') [], Element ''key'' None [],
         Element ''integer'' (Some ''3'') []]) = Inr (PyDict [(None, PyInt 3)])
   \<and> None \<in> fst ` set [(None :: string option, PyInt 3)]
   \<and> map_of [(None :: string option, PyInt 3)] None = Some (PyInt 3)"
proof -
  let ?cs = "[Element ''string'' (Some ''s'') [], Element ''key'' None [],
              Element ''integer'' (Some ''3'') []]"
  have i: "py_int ''3'' = Some 3" by code_simp
  have s: "1 \<in> set (loop_stops ?cs 0)" by code_simp
  have l: "Suc 1 < length ?cs" by simp
  have t: "tag (?cs ! 1) = ''key''" by simp
  have n: "etext (?cs ! 1) = None" by simp
  have p: "parse_plist_value (Element ''dict'' None ?cs) = Inr (PyDict [(None, PyInt 3)])"
    by (simp add: dict_loop_drop i)
  from absent_key_text_entry [OF s l t n, of None, THEN conjunct2, THEN spec, THEN mp, OF p]
  have k: "None \<in> fst ` set [(None :: string option, PyInt 3)]" by auto
  have m: "map_of [(None :: string option, PyInt 3)] None = Some (PyInt 3)" by simp
  from s l t n p k m show ?thesis by (intro conjI)
qed

text \<open>
  As the claim words it, for every such child with a following sibling, it fails where the
  child is itself the value of the key before it: the children \<open>key A\<close>, a key without text
  and \<open>string x\<close> decode to the one entry \<open>A\<close> with the null value, and no entry has the
  null key.
\<close>

theorem absent_key_text_counterexample:
  "tag ([Element ''key'' (Some ''A'') [], Element ''key'' None [],
         Element ''string'' (Some ''x'') []] ! 1) = ''key''
   \<and> etext ([Element ''key'' (Some ''A'') [], Element ''key'' None [],
              Element ''string'' (Some ''x'') []] ! 1) = None
   \<and> Suc 1 < length [Element ''key'' (Some ''A'') [], Element ''key'' None [],
                      Element ''string'' (Some ''x'') []]
   \<and> parse_plist_value (Element ''dict'' None
        [Element ''key'' (Some ''A'') [], Element ''key'' None [],
         Element ''string'' (Some ''x'') []]) = Inr (PyDict [(Some ''A'', PyNone)])
   \<and> None \<notin> fst ` set [(Some ''A'', PyNone)]"
  by (simp add: dict_loop_drop)

end
